theory Spec2Isabelle
  imports Main "HOL-Library.Word"
begin

section \<open>The radix tree of tree.go\<close>

text \<open>
  A node of the radix tree. The Go struct is recursive through its slice of children, so
  it is a datatype with selectors named after the fields. \<open>priority\<close> is a \<open>uint32\<close>
  and wraps. \<open>handlers\<close> is a Go map from the method to a \<open>HandlerFunc\<close>: reading a
  missing key gives \<open>nil\<close>, and no code tells a missing key from a \<open>nil\<close> entry or a
  \<open>nil\<close> map from an empty one, so the map is a total function into \<open>'h option\<close> with
  \<open>None\<close> for \<open>nil\<close>.
\<close>

datatype nodeType = static | root | param | catchAll

datatype 'h node =
  Node (path: string) (indices: string) (wildChild: bool) (nType: nodeType)
       (priority: "32 word") (children: "'h node list")
       (handlers: "string \<Rightarrow> 'h option") (params: "string list")

text \<open>The panics of tree.go and router.go, and the run-time panics of out-of-range reads.\<close>

datatype error =
    OnlyOneWildcard
  | WildcardUnnamed
  | WildcardConflict
  | CatchAllNotAtEnd
  | CatchAllConflictsRoot
  | NoSlashBeforeCatchAll
  | InvalidNodeType
  | IndexOutOfRange
  | PathMustBeginWithSlash

text \<open>The zero value \<open>&node{}\<close>.\<close>

definition nilHandlers :: "string \<Rightarrow> 'h option" where
  "nilHandlers = (\<lambda>_. None)"

abbreviation emptyNode :: "'h node" where
  "emptyNode \<equiv> Node [] [] False static 0 [] nilHandlers []"

subsection \<open>Helper functions\<close>

fun longestCommonPrefix :: "string \<Rightarrow> string \<Rightarrow> nat" where
  "longestCommonPrefix (x # xs) (y # ys) =
     (if x = y then Suc (longestCommonPrefix xs ys) else 0)"
| "longestCommonPrefix _ _ = 0"

text \<open>
  The inner loop of \<open>findWildcard\<close>, over \<open>path[start+1:]\<close>: the offset of the first
  \<open>/\<close> (the length when there is none), and whether no \<open>:\<close> or \<open>*\<close> came before it.
\<close>

fun wildcardEnd :: "string \<Rightarrow> nat \<times> bool" where
  "wildcardEnd [] = (0, True)"
| "wildcardEnd (c # cs) =
     (if c = CHR ''/'' then (0, True)
      else (case wildcardEnd cs of
              (e, v) \<Rightarrow> (Suc e, v \<and> c \<noteq> CHR '':'' \<and> c \<noteq> CHR ''*'')))"

text \<open>\<open>findWildcard\<close>: \<open>None\<close> stands for the result with \<open>i = -1\<close>.\<close>

fun findWildcard :: "string \<Rightarrow> (string \<times> nat \<times> bool) option" where
  "findWildcard [] = None"
| "findWildcard (c # cs) =
     (if c \<noteq> CHR '':'' \<and> c \<noteq> CHR ''*''
      then map_option (\<lambda>(w, i, v). (w, Suc i, v)) (findWildcard cs)
      else (case wildcardEnd cs of (e, v) \<Rightarrow> Some (c # take e cs, 0, v)))"

text \<open>The scan \<open>for i := 0; i < len(n.indices); i++ { if c == n.indices[i] ...\<close>.\<close>

fun findIndex :: "char \<Rightarrow> string \<Rightarrow> nat option" where
  "findIndex c [] = None"
| "findIndex c (x # xs) = (if c = x then Some 0 else map_option Suc (findIndex c xs))"

subsection \<open>insertChild\<close>

text \<open>
  The loop of \<open>insertChild\<close> continues only below a fresh \<open>param\<close> node, on a fresh
  child of priority 1 and the rest of the path, so it is a recursion on the path. The
  model returns the node the Go code mutates in place.
\<close>

function insertChild :: "'h node \<Rightarrow> string \<Rightarrow> string \<Rightarrow> 'h option \<Rightarrow> error + 'h node" where
  "insertChild n pth method handler =
     (case findWildcard pth of
        None \<Rightarrow>
          Inr (Node pth (indices n) (wildChild n) (nType n) (priority n) (children n)
                 ((handlers n)(method := handler)) (params n))
      | Some (wildcard, i, valid) \<Rightarrow>
          if \<not> valid then Inl OnlyOneWildcard
          else if length wildcard < 2 then Inl WildcardUnnamed
          else if length (children n) > 0 then Inl WildcardConflict
          else if hd wildcard = CHR '':'' then
            (let npath = (if i > 0 then take i pth else path n);
                 pth1 = (if i > 0 then drop i pth else pth)
             in if length wildcard < length pth1 then
                  (case insertChild (Node [] [] False static 1 [] nilHandlers [])
                          (drop (length wildcard) pth1) method handler of
                     Inl e \<Rightarrow> Inl e
                   | Inr grandchild \<Rightarrow>
                       Inr (Node npath (indices n) True (nType n) (priority n)
                              [Node wildcard [] False param 1 [grandchild] nilHandlers []]
                              (handlers n) (params n)))
                else
                  Inr (Node npath (indices n) True (nType n) (priority n)
                         [Node wildcard [] False param 1 []
                            (nilHandlers(method := handler)) [tl wildcard]]
                         (handlers n) (params n)))
          else if i + length wildcard \<noteq> length pth then Inl CatchAllNotAtEnd
          else if path n \<noteq> [] \<and> last (path n) = CHR ''/'' then Inl CatchAllConflictsRoot
          else if i = 0 then Inl IndexOutOfRange
          else if pth ! (i - 1) \<noteq> CHR ''/'' then Inl NoSlashBeforeCatchAll
          else
            Inr (Node (take (i - 1) pth) [pth ! (i - 1)] (wildChild n) (nType n) (priority n)
                   [Node [] [] True catchAll 1
                      [Node (drop (i - 1) pth) [] False catchAll 1 []
                         (nilHandlers(method := handler)) [tl wildcard]]
                      nilHandlers []]
                   (handlers n) (params n)))"
  by pat_completeness auto
termination
  by (relation "measure (\<lambda>(n, pth, method, handler). length pth)") (auto split: if_splits)

declare insertChild.simps [simp del]

subsection \<open>incrementChildPrio\<close>

text \<open>
  The move-to-front loop: \<open>bubble cs newPos prio\<close> swaps the child at \<open>newPos\<close> with
  its left neighbour while that neighbour's priority is below \<open>prio\<close>, and returns the
  children with the final position.
\<close>

fun bubble :: "'h node list \<Rightarrow> nat \<Rightarrow> 32 word \<Rightarrow> 'h node list \<times> nat" where
  "bubble cs 0 prio = (cs, 0)"
| "bubble cs (Suc k) prio =
     (if priority (cs ! k) < prio
      then bubble (cs[k := cs ! Suc k, Suc k := cs ! k]) k prio
      else (cs, Suc k))"

definition setPriority :: "32 word \<Rightarrow> 'h node \<Rightarrow> 'h node" where
  "setPriority p n =
     Node (path n) (indices n) (wildChild n) (nType n) p (children n) (handlers n) (params n)"

definition setChildren :: "'h node list \<Rightarrow> 'h node \<Rightarrow> 'h node" where
  "setChildren cs n =
     Node (path n) (indices n) (wildChild n) (nType n) (priority n) cs (handlers n) (params n)"

text \<open>
  \<open>cs[pos]\<close> panics when \<open>pos\<close> is not below \<open>len(cs)\<close>, and the slices of
  \<open>n.indices\<close> panic when \<open>pos + 1\<close> is beyond its length.
\<close>

definition incrementChildPrio :: "'h node \<Rightarrow> nat \<Rightarrow> error + ('h node \<times> nat)" where
  "incrementChildPrio n pos =
     (if pos \<ge> length (children n) then Inl IndexOutOfRange
      else
        (let cs = (children n)[pos := setPriority (priority (children n ! pos) + 1) (children n ! pos)];
             prio = priority (cs ! pos)
         in case bubble cs pos prio of
              (cs', newPos) \<Rightarrow>
                if newPos \<noteq> pos then
                  (if pos \<ge> length (indices n) then Inl IndexOutOfRange
                   else Inr (Node (path n)
                               (take newPos (indices n) @ [indices n ! pos] @
                                  drop newPos (take pos (indices n)) @ drop (Suc pos) (indices n))
                               (wildChild n) (nType n) (priority n) cs' (handlers n) (params n),
                             newPos))
                else Inr (setChildren cs' n, newPos)))"

subsection \<open>addRoute\<close>

text \<open>The edge split: the node keeps the common prefix, a new child takes the rest.\<close>

definition splitEdge :: "'h node \<Rightarrow> nat \<Rightarrow> string \<Rightarrow> 'h node" where
  "splitEdge n i pth =
     Node (take i pth) [path n ! i] False (nType n) (priority n)
       [Node (drop i (path n)) (indices n) (wildChild n) static (priority n - 1)
          (children n) (handlers n) (params n)]
       nilHandlers []"

text \<open>
  Facts for the termination of the walk: the walk descends into an existing child only
  when the edge was not split, and the child it enters is a child of the node it left.
\<close>

lemma lcp_mismatch:
  "longestCommonPrefix a b < length a \<Longrightarrow> longestCommonPrefix a b < length b
   \<Longrightarrow> a ! longestCommonPrefix a b \<noteq> b ! longestCommonPrefix a b"
  by (induction a b rule: longestCommonPrefix.induct) auto
lemma bubble_props:
  "bubble cs pos prio = (cs', newPos) \<Longrightarrow> pos < length cs \<Longrightarrow>
     cs' ! newPos = cs ! pos \<and> newPos \<le> pos \<and> length cs' = length cs"
proof (induction cs pos prio arbitrary: cs' newPos rule: bubble.induct)
  case (1 cs prio)
  then show ?case by simp
next
  case (2 cs k prio)
  show ?case
  proof (cases "priority (cs ! k) < prio")
    case True
    let ?cs1 = "cs[k := cs ! Suc k, Suc k := cs ! k]"
    from True 2(2) have b: "bubble ?cs1 k prio = (cs', newPos)" by simp
    have l: "k < length ?cs1" using 2(3) by simp
    from 2(1)[OF True b l] have "cs' ! newPos = ?cs1 ! k" "newPos \<le> k" "length cs' = length ?cs1"
      by simp_all
    moreover have "?cs1 ! k = cs ! Suc k" using 2(3) by (simp add: nth_list_update)
    ultimately show ?thesis by simp
  next
    case False
    with 2 show ?thesis by auto
  qed
qed
lemma size_setPriority: "size (setPriority p n) = size n"
  by (cases n) (simp add: setPriority_def)
lemma size_child: "k < length (children n) \<Longrightarrow> size (children n ! k) < size n"
  apply (cases n) apply simp
  by (metis less_Suc_eq nth_mem size_list_estimation' not_less)

lemma incrementChildPrio_child:
  assumes "incrementChildPrio n pos = Inr (n2, k)"
  shows "pos < length (children n) \<and> k < length (children n2) \<and>
         children n2 ! k = setPriority (priority (children n ! pos) + 1) (children n ! pos)"
proof -
  from assms have p: "pos < length (children n)"
    by (auto simp: incrementChildPrio_def split: if_splits)
  let ?cs = "(children n)[pos := setPriority (priority (children n ! pos) + 1) (children n ! pos)]"
  obtain cs' newPos where b: "bubble ?cs pos (priority (?cs ! pos)) = (cs', newPos)"
    by (cases "bubble ?cs pos (priority (?cs ! pos))") auto
  from p have "pos < length ?cs" by simp
  from bubble_props[OF b this] have bp: "cs' ! newPos = ?cs ! pos" "newPos \<le> pos" "length cs' = length ?cs"
    by simp_all
  from assms p b have "k = newPos \<and> children n2 = cs'"
    by (auto simp: incrementChildPrio_def Let_def setChildren_def split: if_splits)
  with bp p show ?thesis by simp
qed

lemma findIndex_Some: "findIndex c s = Some k \<Longrightarrow> k < length s \<and> s ! k = c"
  by (induction s arbitrary: k) (auto split: if_splits)

text \<open>
  The \<open>walk\<close> loop of \<open>addRoute\<close>. The Go code moves the pointer \<open>n\<close> down and
  mutates the node it reaches; the model rebuilds the node above with the new child in
  the child's place. After \<open>incrementChildPrio(len(n.indices) - 1)\<close> the pointer \<open>child\<close>
  still names the node that was appended last: it has moved to \<open>newPos\<close> when the bubbled
  position was the last one, and has stayed last otherwise.
\<close>

function walk :: "'h node \<Rightarrow> string \<Rightarrow> string \<Rightarrow> 'h option \<Rightarrow> error + 'h node" where
  "walk n pth method handler =
     (let i = longestCommonPrefix pth (path n);
          n1 = (if i < length (path n) then splitEdge n i pth else n)
      in if i < length pth then
           (let pth1 = drop i pth; c = hd pth1
            in case findIndex c (indices n1) of
                 Some k \<Rightarrow>
                   (case incrementChildPrio n1 k of
                      Inl e \<Rightarrow> Inl e
                    | Inr (n2, k') \<Rightarrow>
                        (case walk (children n2 ! k') pth1 method handler of
                           Inl e \<Rightarrow> Inl e
                         | Inr ch \<Rightarrow> Inr (setChildren ((children n2)[k' := ch]) n2)))
               | None \<Rightarrow>
                   if c \<noteq> CHR '':'' \<and> c \<noteq> CHR ''*'' then
                     (let n2 = Node (path n1) (indices n1 @ [c]) (wildChild n1) (nType n1)
                                 (priority n1) (children n1 @ [emptyNode]) (handlers n1) (params n1);
                          pos = length (indices n2) - 1
                      in case incrementChildPrio n2 pos of
                           Inl e \<Rightarrow> Inl e
                         | Inr (n3, newPos) \<Rightarrow>
                             (let k = (if pos = length (children n2) - 1 then newPos
                                       else length (children n2) - 1)
                              in case insertChild (children n3 ! k) pth1 method handler of
                                   Inl e \<Rightarrow> Inl e
                                 | Inr ch \<Rightarrow> Inr (setChildren ((children n3)[k := ch]) n3)))
                   else insertChild n1 pth1 method handler)
         else
           Inr (Node (path n1) (indices n1) (wildChild n1) (nType n1) (priority n1) (children n1)
                  ((handlers n1)(method := handler)) (params n1)))"
  by pat_completeness auto
termination
proof (relation "measure (\<lambda>(n, pth, method, handler). size n)", goal_cases)
  case 1
  show ?case by simp
next
  case (2 n pth m h i n1 pth1 c k x n2 k')
  have nosplit: "\<not> i < length (path n)"
  proof
    assume s: "i < length (path n)"
    with 2 have "indices n1 = [path n ! i]" by (simp add: splitEdge_def)
    with 2 findIndex_Some[of c "indices n1" k] have "c = path n ! i" by auto
    moreover from 2 have "c = pth ! i" by (simp add: hd_drop_conv_nth)
    ultimately show False using lcp_mismatch[of pth "path n"] 2 s by simp
  qed
  with 2 have "n1 = n" by simp
  with 2 incrementChildPrio_child[of n k n2 k'] show ?case
    by (simp add: size_setPriority size_child)
qed
declare walk.simps [simp del]

definition addRoute :: "'h node \<Rightarrow> string \<Rightarrow> string \<Rightarrow> 'h option \<Rightarrow> error + 'h node" where
  "addRoute n pth method handler =
     (let n0 = setPriority (priority n + 1) n
      in if length (path n0) = 0 \<and> length (children n0) = 0 then
           (case insertChild n0 pth method handler of
              Inl e \<Rightarrow> Inl e
            | Inr n1 \<Rightarrow>
                Inr (Node (path n1) (indices n1) (wildChild n1) root (priority n1) (children n1)
                       (handlers n1) (params n1)))
         else walk n0 pth method handler)"

subsection \<open>getValue\<close>

text \<open>The parameter scan \<open>for end < len(path) && path[end] != '/'\<close>.\<close>

fun paramEnd :: "string \<Rightarrow> nat" where
  "paramEnd [] = 0"
| "paramEnd (c # cs) = (if c \<noteq> CHR ''/'' then Suc (paramEnd cs) else 0)"

text \<open>
  The lookup loop, with the parameter map built so far as an argument. The result
  \<open>None\<close> is the Go result \<open>(nil, nil)\<close>; a handler is returned with the map. Reading
  \<open>n.children[0]\<close> or \<open>n.params[0]\<close> of an empty slice panics.
\<close>

function getValueFrom ::
  "'h node \<Rightarrow> string \<Rightarrow> string \<Rightarrow> (string \<rightharpoonup> string) \<Rightarrow> error + ('h \<times> (string \<rightharpoonup> string)) option"
where
  "getValueFrom n pth method ps =
     (if length pth > length (path n) then
           (if take (length (path n)) pth = (path n) then
              (let pth1 = drop (length (path n)) pth
               in if wildChild n then
                    (case children n of
                       [] \<Rightarrow> Inl IndexOutOfRange
                     | ch # _ \<Rightarrow>
                         (if nType ch = param then
                              (let e = paramEnd pth1;
                                   ps1 = (if length (path ch) > 0
                                          then ps(tl (path ch) \<mapsto> take e pth1) else ps)
                               in if e < length pth1 then
                                    (case children ch of
                                       g # _ \<Rightarrow> getValueFrom g (drop e pth1) method ps1
                                     | [] \<Rightarrow> Inr None)
                                  else
                                    (case handlers ch method of
                                       Some h \<Rightarrow> Inr (Some (h, ps1))
                                     | None \<Rightarrow>
                                         (case children ch of
                                            [] \<Rightarrow> Inr None
                                          | g # _ \<Rightarrow>
                                              (case handlers g method of
                                                 Some h \<Rightarrow> Inr (Some (h, ps1))
                                               | None \<Rightarrow> Inr None))))
                          else if nType ch = catchAll then
                              (if length (path ch) > 1 then
                                 (case params ch of
                                    [] \<Rightarrow> Inl IndexOutOfRange
                                  | p # _ \<Rightarrow>
                                      (case handlers ch method of
                                         Some h \<Rightarrow> Inr (Some (h, ps(p \<mapsto> pth1)))
                                       | None \<Rightarrow> Inr None))
                               else
                                 (case handlers ch method of
                                    Some h \<Rightarrow> Inr (Some (h, ps))
                                  | None \<Rightarrow> Inr None))
                          else Inl InvalidNodeType))
                  else
                    (case findIndex (hd pth1) (indices n) of
                       Some i \<Rightarrow>
                         if i < length (children n)
                         then getValueFrom (children n ! i) pth1 method ps
                         else Inl IndexOutOfRange
                     | None \<Rightarrow> Inr None))
            else Inr None)
         else if pth = (path n) then
           (case handlers n method of
              Some h \<Rightarrow> Inr (Some (h, ps))
            | None \<Rightarrow> Inr None)
         else Inr None)"
  by pat_completeness auto
termination
proof (relation "measure (\<lambda>(n, pth, method, ps). size n)", goal_cases)
  case 1
  show ?case by simp
next
  case (2 n pth m ps pth1 ch cs e ps1 g gs)
  then have "size ch < size n" "size g < size ch"
    using size_child[of 0 n] size_child[of 0 ch] by simp_all
  then show ?case by simp
next
  case (3 n pth m ps pth1 i)
  then show ?case by (simp add: size_child)
qed
declare getValueFrom.simps [simp del]

definition getValue ::
  "'h node \<Rightarrow> string \<Rightarrow> string \<Rightarrow> error + ('h \<times> (string \<rightharpoonup> string)) option" where
  "getValue n pth method = getValueFrom n pth method Map.empty"

section \<open>The handler chain of context.go\<close>

text \<open>
  A \<open>HandlerFunc\<close> is arbitrary Go code over the context. The model covers the handlers
  the claims speak about: a user handler is a script of the three things that matter to
  the chain (leaving a mark in the request's trace, calling \<open>c.Next()\<close>, calling
  \<open>c.Abort()\<close>), and \<open>FinalHandler g h\<close> is the closure \<open>finalHandler\<close> that
  \<open>RouterGroup.handle\<close> builds, which captures the group pointer \<open>g\<close> and the route's
  handler \<open>h\<close>. Slices of handlers hold no \<open>nil\<close>.
\<close>

datatype action = Emit string | CallNext | CallAbort

datatype handler = Script "action list" | FinalHandler nat handler

text \<open>
  The fields of \<open>Context\<close> the chain uses; \<open>handlers'\<close> is the field \<open>handlers\<close>, and
  \<open>trace\<close> collects the marks the scripts leave, in order: it is what the handlers did
  to the request.
\<close>

record Context =
  Params :: "string \<rightharpoonup> string"
  index :: int
  handlers' :: "handler list"
  trace :: "string list"

text \<open>\<open>Context.Param\<close>: reading a missing key of a Go map gives the empty string.\<close>

definition Param :: "Context \<Rightarrow> string \<Rightarrow> string" where
  "Param c key = (case Params c key of None \<Rightarrow> [] | Some v \<Rightarrow> v)"

definition Abort :: "Context \<Rightarrow> Context" where
  "Abort c = c\<lparr>index := int (length (handlers' c))\<rparr>"

section \<open>Route groups\<close>

text \<open>
  Groups are heap objects: \<open>parent\<close> is a pointer, and \<open>Use\<close> mutates a group that
  closures and child groups still point to. The store is the list of all groups, a
  pointer is a position in it. \<open>middleware'\<close> is the field \<open>middleware\<close>; the \<open>router\<close>
  pointer is left out, there is one router.
\<close>

record RouterGroup =
  prefix :: string
  parent :: "nat option"
  middleware' :: "handler list"

text \<open>
  \<open>combineMiddleware\<close> recurses along the parent pointers. \<open>None\<close> is no result: a chain
  of parents that never ends, or a pointer outside the store.
\<close>

partial_function (option) combineMiddleware :: "RouterGroup list \<Rightarrow> nat \<Rightarrow> handler list option" where
  "combineMiddleware gs g =
     (if g < length gs then
        (case parent (gs ! g) of
           Some p \<Rightarrow> Option.bind (combineMiddleware gs p) (\<lambda>ms. Some (ms @ middleware' (gs ! g)))
         | None \<Rightarrow> Some ([] @ middleware' (gs ! g)))
      else None)"

declare combineMiddleware.simps [code]

text \<open>
  \<open>Context.Next\<close> and the handlers it calls, which call \<open>Next\<close> again. A handler may
  run for ever (a group closure whose chain contains itself), so the execution takes
  fuel: \<open>None\<close> is fuel exhausted, \<open>Some (Inl e)\<close> a panic, \<open>Some (Inr c)\<close> the context
  on return. \<open>Next_loop\<close> is the \<open>for\<close> loop of \<open>Next\<close>, \<open>call\<close> one handler invocation,
  \<open>run\<close> the body of a script.
\<close>

fun Next_loop :: "nat \<Rightarrow> RouterGroup list \<Rightarrow> Context \<Rightarrow> (error + Context) option"
  and call :: "nat \<Rightarrow> RouterGroup list \<Rightarrow> handler \<Rightarrow> Context \<Rightarrow> (error + Context) option"
  and run :: "nat \<Rightarrow> RouterGroup list \<Rightarrow> action list \<Rightarrow> Context \<Rightarrow> (error + Context) option"
where
  "Next_loop 0 gs c = None"
| "Next_loop (Suc f) gs c =
     (if index c < int (length (handlers' c)) then
        (if index c < 0 then Some (Inl IndexOutOfRange)
         else
           (case call f gs (handlers' c ! nat (index c)) c of
              None \<Rightarrow> None
            | Some (Inl e) \<Rightarrow> Some (Inl e)
            | Some (Inr c1) \<Rightarrow> Next_loop f gs (c1\<lparr>index := index c1 + 1\<rparr>)))
      else Some (Inr c))"
| "call 0 gs h c = None"
| "call (Suc f) gs (Script as) c = run f gs as c"
| "call (Suc f) gs (FinalHandler g h) c =
     (case combineMiddleware gs g of
        None \<Rightarrow> None
      | Some groupMiddleware \<Rightarrow>
          (case (let c0 = c\<lparr>handlers' := groupMiddleware @ [h], index := - 1\<rparr>
                 in Next_loop f gs (c0\<lparr>index := index c0 + 1\<rparr>)) of
             None \<Rightarrow> None
           | Some (Inl e) \<Rightarrow> Some (Inl e)
           | Some (Inr c1) \<Rightarrow> Some (Inr (c1\<lparr>handlers' := handlers' c, index := index c\<rparr>))))"
| "run f gs [] c = Some (Inr c)"
| "run f gs (Emit s # as) c = run f gs as (c\<lparr>trace := trace c @ [s]\<rparr>)"
| "run f gs (CallAbort # as) c = run f gs as (Abort c)"
| "run 0 gs (CallNext # as) c = None"
| "run (Suc f) gs (CallNext # as) c =
     (case Next_loop f gs (c\<lparr>index := index c + 1\<rparr>) of
        None \<Rightarrow> None
      | Some (Inl e) \<Rightarrow> Some (Inl e)
      | Some (Inr c1) \<Rightarrow> run (Suc f) gs as c1)"


section \<open>The router of router.go\<close>

text \<open>
  \<open>trees\<close> is a Go map from the method to the root of its tree, kept as an association
  list with one entry per method; a \<open>range\<close> over the map visits the entries in an order
  Go leaves open, the model in list order. The hooks are \<open>nil\<close> when unset.
\<close>

record Router =
  trees :: "(string \<times> handler node) list"
  middleware :: "handler list"
  NotFound :: "handler option"
  MethodNotAllowed :: "handler option"
  HandleOPTIONS :: bool

definition New :: Router where
  "New = \<lparr>trees = [], middleware = [], NotFound = None, MethodNotAllowed = None,
          HandleOPTIONS = True\<rparr>"


fun setTree :: "string \<Rightarrow> 'a \<Rightarrow> (string \<times> 'a) list \<Rightarrow> (string \<times> 'a) list" where
  "setTree m t [] = [(m, t)]"
| "setTree m t ((m', t') # ts) = (if m' = m then (m, t) # ts else (m', t') # setTree m t ts)"

text \<open>\<open>Router.addRoute\<close>; \<open>path[0]\<close> of the empty string panics.\<close>

definition Router_addRoute :: "Router \<Rightarrow> string \<Rightarrow> string \<Rightarrow> handler option \<Rightarrow> error + Router" where
  "Router_addRoute r method pth handler =
     (if length pth = 0 then Inl IndexOutOfRange
      else if hd pth \<noteq> CHR ''/'' then Inl PathMustBeginWithSlash
      else
        (let rt = (case map_of (trees r) method of None \<Rightarrow> emptyNode | Some t \<Rightarrow> t)
         in case addRoute rt pth method handler of
              Inl e \<Rightarrow> Inl e
            | Inr rt' \<Rightarrow> Inr (r\<lparr>trees := setTree method rt' (trees r)\<rparr>)))"

text \<open>
  What \<open>ServeHTTP\<close> decides before anything runs: a chain for \<open>c.Next()\<close> with the
  parameters of the context, the automatic OPTIONS reply with the allowed methods, or a
  plain error response of the standard library with its status code.
\<close>

datatype dispatch =
    Chain "handler list" "string \<rightharpoonup> string"
  | Options "string list"
  | HttpError nat

text \<open>The loop of \<open>handleOPTIONS\<close> over all trees.\<close>

fun allowedMethods :: "(string \<times> handler node) list \<Rightarrow> string \<Rightarrow> error + string list" where
  "allowedMethods [] pth = Inr []"
| "allowedMethods ((m, rt) # ts) pth =
     (case getValue rt pth m of
        Inl e \<Rightarrow> Inl e
      | Inr found \<Rightarrow>
          (case allowedMethods ts pth of
             Inl e \<Rightarrow> Inl e
           | Inr allowed \<Rightarrow> Inr (if found \<noteq> None then m # allowed else allowed)))"

text \<open>
  The loop "check if path exists with different method": \<open>Inr True\<close> when it reaches a
  tree of another method with a handler for the path.
\<close>

fun otherMethodHasHandler :: "(string \<times> handler node) list \<Rightarrow> string \<Rightarrow> string \<Rightarrow> error + bool" where
  "otherMethodHasHandler [] method pth = Inr False"
| "otherMethodHasHandler ((m, rt) # ts) method pth =
     (if m \<noteq> method then
        (case getValue rt pth m of
           Inl e \<Rightarrow> Inl e
         | Inr (Some found) \<Rightarrow> Inr True
         | Inr None \<Rightarrow> otherMethodHasHandler ts method pth)
      else otherMethodHasHandler ts method pth)"

definition fallback :: "Router \<Rightarrow> string \<Rightarrow> string \<Rightarrow> error + dispatch" where
  "fallback r method pth =
     (if method = ''OPTIONS'' \<and> HandleOPTIONS r then
        (case allowedMethods (trees r) pth of
           Inl e \<Rightarrow> Inl e
         | Inr allowed \<Rightarrow> Inr (Options allowed))
      else
        (case otherMethodHasHandler (trees r) method pth of
           Inl e \<Rightarrow> Inl e
         | Inr True \<Rightarrow>
             (case MethodNotAllowed r of
                Some h \<Rightarrow> Inr (Chain [h] Map.empty)
              | None \<Rightarrow> Inr (HttpError 405))
         | Inr False \<Rightarrow>
             (case NotFound r of
                Some h \<Rightarrow> Inr (Chain [h] Map.empty)
              | None \<Rightarrow> Inr (HttpError 404))))"

definition ServeHTTP_dispatch :: "Router \<Rightarrow> string \<Rightarrow> string \<Rightarrow> error + dispatch" where
  "ServeHTTP_dispatch r method pth =
     (case map_of (trees r) method of
        Some rt \<Rightarrow>
          (case getValue rt pth method of
             Inl e \<Rightarrow> Inl e
           | Inr (Some (handler, ps)) \<Rightarrow> Inr (Chain (middleware r @ [handler]) ps)
           | Inr None \<Rightarrow> fallback r method pth)
      | None \<Rightarrow> fallback r method pth)"


subsection \<open>Groups on the router\<close>





section \<open>Sequences of registrations\<close>

text \<open>Registrations one after the other; the first panic ends the sequence.\<close>

fun register :: "Router \<Rightarrow> (string \<times> string \<times> handler option) list \<Rightarrow> error + Router" where
  "register r [] = Inr r"
| "register r ((method, pth, handler) # regs) =
     (case Router_addRoute r method pth handler of
        Inl e \<Rightarrow> Inl e
      | Inr r' \<Rightarrow> register r' regs)"

text \<open>The marks a script leaves, and the scripts that call neither \<open>Next\<close> nor \<open>Abort\<close>.\<close>

fun emits :: "action list \<Rightarrow> string list" where
  "emits [] = []"
| "emits (Emit s # as) = s # emits as"
| "emits (a # as) = emits as"

definition noNextNoAbort :: "action list \<Rightarrow> bool" where
  "noNextNoAbort as = (\<forall>a \<in> set as. a \<noteq> CallNext \<and> a \<noteq> CallAbort)"





text \<open>The equations that evaluate the tree operations on concrete input.\<close>

lemmas eval_simps = addRoute_def walk.simps insertChild.simps getValue_def getValueFrom.simps
  incrementChildPrio_def splitEdge_def setPriority_def setChildren_def Router_addRoute_def
  New_def Let_def


section \<open>Paths\<close>

text \<open>A path without wildcard characters, and a piece of one path segment without them.\<close>

definition isStatic :: "string \<Rightarrow> bool" where
  "isStatic s = (\<forall>c \<in> set s. c \<noteq> CHR '':'' \<and> c \<noteq> CHR ''*'')"

definition isSegment :: "string \<Rightarrow> bool" where
  "isSegment s = (\<forall>c \<in> set s. c \<noteq> CHR ''/'' \<and> c \<noteq> CHR '':'' \<and> c \<noteq> CHR ''*'')"

section \<open>Indices, children and priorities\<close>

text \<open>
  The property of claim C6 for a node and all nodes below it: as many index bytes as
  children, the i-th child's path starts with the i-th index byte, and the children are
  in non-increasing order of priority.
\<close>

fun wellIndexed :: "'h node \<Rightarrow> bool" where
  "wellIndexed (Node p ix w t pr cs hs ps) =
     (length ix = length cs
      \<and> (\<forall>i < length cs. path (cs ! i) \<noteq> [] \<and> path (cs ! i) ! 0 = ix ! i)
      \<and> sorted_wrt (\<lambda>a b. priority b \<le> priority a) cs
      \<and> (\<forall>c \<in> set cs. wellIndexed c))"

text \<open>
  What \<open>incrementChildPrio\<close> does to a list: the element at \<open>pos\<close> moves to \<open>newPos\<close>,
  the elements between shift right by one. The new \<open>indices\<close> string is written in
  this form in the source.
\<close>

definition moveTo :: "'a list \<Rightarrow> nat \<Rightarrow> nat \<Rightarrow> 'a list" where
  "moveTo xs pos newPos =
     take newPos xs @ [xs ! pos] @ drop newPos (take pos xs) @ drop (Suc pos) xs"

definition byPriority :: "'h node \<Rightarrow> 'h node \<Rightarrow> bool" where
  "byPriority a b = (priority b \<le> priority a)"

definition firstByte :: "'h node \<Rightarrow> char" where
  "firstByte c = hd (path c)"

text \<open>
  The invariant that trees of wildcard-free routes keep: \<open>wellIndexed\<close> in terms of
  lists, no wildcard child, no two children under the same index byte, and no child
  with a priority above its parent's, so that no increment of a child's priority wraps
  before the root's does.
\<close>

fun treeInv :: "'h node \<Rightarrow> bool" where
  "treeInv (Node p ix w t pr cs hs ps) =
     (\<not> w \<and> distinct ix \<and> map firstByte cs = ix \<and> sorted_wrt byPriority cs
      \<and> (\<forall>c \<in> set cs. path c \<noteq> [] \<and> priority c \<le> pr \<and> treeInv c))"

text \<open>Every tree of the router keeps the invariant and has seen at most \<open>k\<close> routes.\<close>

definition treesBounded :: "Router \<Rightarrow> nat \<Rightarrow> bool" where
  "treesBounded r k = (\<forall>(m, t) \<in> set (trees r). treeInv t \<and> unat (priority t) \<le> k)"


section \<open>Lookup of a catch-all route\<close>


lemma findWildcard_static: "isStatic s \<Longrightarrow> findWildcard s = None"
  by (induction s) (auto simp: isStatic_def)

lemma wildcardEnd_name:
  "isSegment name \<Longrightarrow>
   wildcardEnd name = (length name, True)"
  by (induction name) (auto simp: isSegment_def)

lemma findWildcard_append:
  "isStatic s \<Longrightarrow> findWildcard (s @ r) = map_option (\<lambda>(w, i, v). (w, length s + i, v)) (findWildcard r)"
  by (induction s) (auto simp: isStatic_def option.map_comp comp_def split_def option.map_ident)

lemma findWildcard_catchAll:
  assumes "isStatic pfx" "isSegment name"
  shows "findWildcard (pfx @ ''/*'' @ name) = Some (CHR ''*'' # name, Suc (length pfx), True)"
proof -
  have "isStatic (pfx @ ''/'')" using assms(1) by (simp add: isStatic_def)
  from findWildcard_append[OF this, of "CHR ''*'' # name"] wildcardEnd_name[OF assms(2)]
  show ?thesis by simp
qed

lemma getValueFrom_catchAll:
  assumes "wildChild n" "children n = ch # cs" "nType ch = catchAll" "1 < length (path ch)"
    "params ch = p # pr" "length (path n) < length pth" "take (length (path n)) pth = path n"
  shows "getValueFrom n pth method ps =
           Inr (case handlers ch method of
                  Some h \<Rightarrow> Some (h, ps(p \<mapsto> drop (length (path n)) pth))
                | None \<Rightarrow> None)"
  using assms by (subst getValueFrom.simps) (simp split: option.splits)

lemma addRoute_catchAll:
  assumes "isStatic pfx" "name \<noteq> []" "isSegment name"
  shows "addRoute emptyNode (pfx @ ''/*'' @ name) method handler =
           Inr (Node pfx ''/'' False root 1
                  [Node [] [] True catchAll 1
                     [Node (''/*'' @ name) [] False catchAll 1 [] (nilHandlers(method := handler)) [name]]
                     nilHandlers []]
                  nilHandlers [])"
  using assms findWildcard_catchAll[OF assms(1,3)]
  by (simp add: addRoute_def setPriority_def insertChild.simps nth_append isSegment_def)


text \<open>
  Claim C7. When the lookup stands at a node whose wildcard child is a catch-all node (as
  \<open>insertChild\<close> builds it: a path of more than one byte and a parameter name), the whole
  remaining path is stored under that name and the catch-all's handler for the method is
  returned. And for every route \<open>pfx/*name\<close> registered in an empty tree, the lookup of
  \<open>pfx/rest\<close> returns the route's handler with the single parameter \<open>name\<close> bound to
  \<open>/rest\<close>, the remaining path with its leading slash; with \<open>/files/*filepath\<close> and
  \<open>/files/a/b/c.txt\<close> this is \<open>filepath = /a/b/c.txt\<close>.
\<close>

theorem catchAll_lookup:
  "(wildChild n \<and> children n = ch # cs \<and> nType ch = catchAll \<and> 1 < length (path ch)
      \<and> params ch = p # pr \<and> handlers ch method = Some h
      \<and> length (path n) < length pth \<and> take (length (path n)) pth = path n
    \<longrightarrow> getValueFrom n pth method ps = Inr (Some (h, ps(p \<mapsto> drop (length (path n)) pth))))
   \<and> (isStatic pfx \<and> name \<noteq> [] \<and> isSegment name
    \<longrightarrow> (\<exists>t. addRoute emptyNode (pfx @ ''/*'' @ name) method (Some h) = Inr t
             \<and> getValue t (pfx @ ''/'' @ rest) method = Inr (Some (h, [name \<mapsto> ''/'' @ rest]))))"
proof (intro conjI impI)
  assume a: "wildChild n \<and> children n = ch # cs \<and> nType ch = catchAll \<and> 1 < length (path ch)
      \<and> params ch = p # pr \<and> handlers ch method = Some h
      \<and> length (path n) < length pth \<and> take (length (path n)) pth = path n"
  then show "getValueFrom n pth method ps = Inr (Some (h, ps(p \<mapsto> drop (length (path n)) pth)))"
    using getValueFrom_catchAll[of n ch cs p pr pth "method" ps] by simp
next
  assume a: "isStatic pfx \<and> name \<noteq> [] \<and> isSegment name"
  let ?inner = "Node [] [] True catchAll 1
                  [Node (''/*'' @ name) [] False catchAll 1 [] (nilHandlers(method := Some h)) [name]]
                  nilHandlers []"
  let ?t = "Node pfx ''/'' False root 1 [?inner] nilHandlers []"
  have reg: "addRoute emptyNode (pfx @ ''/*'' @ name) method (Some h) = Inr ?t"
    using a addRoute_catchAll[of pfx name "method" "Some h"] by simp
  have inner: "getValueFrom ?inner (''/'' @ rest) method Map.empty
                 = Inr (Some (h, [name \<mapsto> ''/'' @ rest]))"
    by (subst getValueFrom_catchAll[where ch = "Node (''/*'' @ name) [] False catchAll 1 []
          (nilHandlers(method := Some h)) [name]" and cs = "[]" and p = name and pr = "[]"]) simp_all
  have "getValue ?t (pfx @ ''/'' @ rest) method = Inr (Some (h, [name \<mapsto> ''/'' @ rest]))"
    unfolding getValue_def using inner by (subst getValueFrom.simps) simp
  with reg show "\<exists>t. addRoute emptyNode (pfx @ ''/*'' @ name) method (Some h) = Inr t
      \<and> getValue t (pfx @ ''/'' @ rest) method = Inr (Some (h, [name \<mapsto> ''/'' @ rest]))"
    by blast
qed

theorem catchAll_lookup_witness:
  "getValueFrom
     (Node [] [] True catchAll 1
        [Node ''/*filepath'' [] False catchAll 1 [] (nilHandlers(''GET'' := Some (Script [Emit ''file'']))) [''filepath'']]
        nilHandlers [])
     ''/a/b/c.txt'' ''GET'' Map.empty = Inr (Some (Script [Emit ''file''], [''filepath'' \<mapsto> ''/a/b/c.txt'']))
   \<and> (\<exists>t. addRoute emptyNode ''/files/*filepath'' ''GET'' (Some (Script [Emit ''file''])) = Inr t
          \<and> getValue t ''/files/a/b/c.txt'' ''GET'' = Inr (Some (Script [Emit ''file''], [''filepath'' \<mapsto> ''/a/b/c.txt''])))"
  using catchAll_lookup[of
      "Node [] [] True catchAll 1
        [Node ''/*filepath'' [] False catchAll 1 [] (nilHandlers(''GET'' := Some (Script [Emit ''file'']))) [''filepath'']]
        nilHandlers []"
      "Node ''/*filepath'' [] False catchAll 1 [] (nilHandlers(''GET'' := Some (Script [Emit ''file'']))) [''filepath'']"
      "[]" "''filepath''" "[]" "''GET''" "Script [Emit ''file'']" "''/a/b/c.txt''" Map.empty
      "''/files''" "''filepath''" "''a/b/c.txt''"]
  by (simp add: isStatic_def isSegment_def)

section \<open>Parameters of the context\<close>

text \<open>
  Claim C10. \<open>Param\<close> of a name the match did not capture is the empty string, whatever
  the context; \<open>Param\<close> has no failing case.
\<close>

theorem Param_not_captured:
  "name \<notin> dom (Params c) \<Longrightarrow> Param c name = []"
  by (auto simp: Param_def split: option.splits)

theorem Param_not_captured_witness:
  "''postId'' \<notin> dom (Params \<lparr>Params = [''id'' \<mapsto> ''42''], index = 1, handlers' = [], trace = []\<rparr>)
   \<and> Param \<lparr>Params = [''id'' \<mapsto> ''42''], index = 1, handlers' = [], trace = []\<rparr> ''postId'' = []"
  using Param_not_captured[of "''postId''"
      "\<lparr>Params = [''id'' \<mapsto> ''42''], index = 1, handlers' = [], trace = []\<rparr>"]
  by simp

section \<open>Handlers that return without calling Next\<close>


text \<open>A script that ends in \<open>c.Abort()\<close> leaves the index at the end, and the loop stops.\<close>

lemma run_plain_then_abort:
  "noNextNoAbort as \<Longrightarrow>
   run f gs (as @ [CallAbort]) c = Some (Inr (Abort (c\<lparr>trace := trace c @ emits as\<rparr>)))"
proof (induction as arbitrary: c)
  case Nil
  then show ?case by simp
next
  case (Cons a as)
  then show ?case by (cases a) (simp_all add: noNextNoAbort_def)
qed

lemma Next_loop_after_abort:
  assumes "0 \<le> index c" "index c < int (length (handlers' c))"
    and "handlers' c ! nat (index c) = Script (as @ [CallAbort])" "noNextNoAbort as"
  shows "Next_loop (Suc (Suc f)) gs c =
           Some (Inr (c\<lparr>trace := trace c @ emits as, index := int (length (handlers' c)) + 1\<rparr>))"
  using assms by (simp add: run_plain_then_abort Abort_def)




section \<open>A literal segment registered at a wildcard\<close>

text \<open>
  Claim C5 at \<open>GET /users/:id\<close> followed by \<open>GET /users/new\<close>: the literal segment
  is registered at the position of the wildcard child without a panic. The node ends
  with one index byte for two children, and the priority of the wrong child raised.
\<close>

theorem literal_after_wildcard_registers:
  "register New [(''GET'', ''/users/:id'', Some h1), (''GET'', ''/users/new'', Some h2)] =
     Inr \<lparr>trees = [(''GET'',
             Node ''/users/'' ''n'' True root 2
               [Node '':id'' [] False param 2 [] (nilHandlers(''GET'' := Some h1)) [''id''],
                Node ''new'' [] False static 0 [] (nilHandlers(''GET'' := Some h2)) []]
               nilHandlers [])],
           middleware = [], NotFound = None, MethodNotAllowed = None, HandleOPTIONS = True\<rparr>"
  by (simp add: eval_simps)

text \<open>
  Claim C3 at the same two registrations: the lookup of the registered path
  \<open>/users/new\<close> returns the handler of \<open>/users/:id\<close>, with \<open>id = new\<close>.
\<close>

theorem literal_after_wildcard_lookup:
  "\<not> isl (register New [(''GET'', ''/users/:id'', Some h1), (''GET'', ''/users/new'', Some h2)])
   \<and> getValue
         (the (map_of
            (trees (projr (register New [(''GET'', ''/users/:id'', Some h1),
                                         (''GET'', ''/users/new'', Some h2)])))
            ''GET''))
         ''/users/new'' ''GET''
       = Inr (Some (h1, [''id'' \<mapsto> ''new'']))"
  by (simp add: eval_simps)

section \<open>Middleware of nested groups\<close>









section \<open>Fallbacks of the dispatch\<close>

lemma otherMethodHasHandler_returns:
  "\<forall>(m, rt) \<in> set ts. m \<noteq> method \<longrightarrow> \<not> isl (getValue rt pth m) \<Longrightarrow>
   otherMethodHasHandler ts method pth =
     Inr (\<exists>(m, rt) \<in> set ts. m \<noteq> method \<and> getValue rt pth m \<noteq> Inr None)"
proof (induction ts)
  case Nil
  then show ?case by simp
next
  case (Cons a ts)
  obtain m rt where a: "a = (m, rt)" by (cases a)
  show ?case
  proof (cases "m = method")
    case True
    with Cons a show ?thesis by simp
  next
    case False
    with Cons.prems a obtain res where g: "getValue rt pth m = Inr res"
      by (cases "getValue rt pth m") auto
    show ?thesis
    proof (cases res)
      case None
      with Cons a False g show ?thesis by simp
    next
      case (Some found)
      with a False g show ?thesis by simp
    qed
  qed
qed

text \<open>
  The fallbacks when every lookup returns. A request whose own tree has no handler for
  the path (or has no tree), that automatic OPTIONS handling does not take, and for
  which the lookups in the other trees return: when a tree of another method has a
  handler for the path, the chain is the \<open>MethodNotAllowed\<close> hook alone, or the plain 405
  when the hook is unset; otherwise it is the \<open>NotFound\<close> hook alone, or the plain 404.
\<close>

lemma fallback_when_lookups_return:
  assumes "case map_of (trees r) m of None \<Rightarrow> True | Some rt \<Rightarrow> getValue rt pth m = Inr None"
    and "\<not> (m = ''OPTIONS'' \<and> HandleOPTIONS r)"
    and "\<forall>(m', rt) \<in> set (trees r). m' \<noteq> m \<longrightarrow> \<not> isl (getValue rt pth m')"
  shows "ServeHTTP_dispatch r m pth =
           (if \<exists>(m', rt) \<in> set (trees r). m' \<noteq> m \<and> getValue rt pth m' \<noteq> Inr None
            then (case MethodNotAllowed r of
                    Some h \<Rightarrow> Inr (Chain [h] Map.empty)
                  | None \<Rightarrow> Inr (HttpError 405))
            else (case NotFound r of
                    Some h \<Rightarrow> Inr (Chain [h] Map.empty)
                  | None \<Rightarrow> Inr (HttpError 404)))"
proof -
  have fb: "ServeHTTP_dispatch r m pth = fallback r m pth"
    using assms(1) by (auto simp: ServeHTTP_dispatch_def split: option.splits)
  have no: "(m = ''OPTIONS'' \<and> HandleOPTIONS r) = False"
    using assms(2) by simp
  show ?thesis
    unfolding fb fallback_def no
    by (simp add: otherMethodHasHandler_returns[OF assms(3)] split: option.splits)
qed


section \<open>Trees of wildcard-free routes\<close>

lemma moveTo_swap:
  assumes "q \<le> k" "Suc k < length cs"
  shows "moveTo (cs[k := cs ! Suc k, Suc k := cs ! k]) k q = moveTo cs (Suc k) q"
proof -
  let ?cs2 = "cs[k := cs ! Suc k, Suc k := cs ! k]"
  have a: "take q ?cs2 = take q cs" using assms by simp
  have b: "?cs2 ! k = cs ! Suc k" using assms by simp
  have c: "take k ?cs2 = take k cs" using assms by simp
  have d: "drop (Suc k) ?cs2 = cs ! k # drop (Suc (Suc k)) cs"
    using assms by (simp add: drop_update_swap Cons_nth_drop_Suc[symmetric] del: list_update.simps)
  have e: "take (Suc k) cs = take k cs @ [cs ! k]"
    using assms by (simp add: take_Suc_conv_app_nth)
  show ?thesis
    unfolding moveTo_def a b c d e using assms by simp
qed

lemma bubble_spec:
  "bubble cs k prio = (cs', q) \<Longrightarrow> k < length cs \<Longrightarrow>
     q \<le> k \<and> cs' = moveTo cs k q
     \<and> (\<forall>j. q \<le> j \<and> j < k \<longrightarrow> priority (cs ! j) < prio)
     \<and> (0 < q \<longrightarrow> \<not> priority (cs ! (q - 1)) < prio)"
proof (induction cs k prio arbitrary: cs' q rule: bubble.induct)
  case (1 cs prio)
  then show ?case by (cases cs) (auto simp: moveTo_def)
next
  case (2 cs k prio)
  show ?case
  proof (cases "priority (cs ! k) < prio")
    case True
    let ?cs2 = "cs[k := cs ! Suc k, Suc k := cs ! k]"
    from True 2(2) have b: "bubble ?cs2 k prio = (cs', q)" by simp
    have l: "k < length ?cs2" using 2(3) by simp
    from 2(1)[OF True b l] have ih: "q \<le> k" "cs' = moveTo ?cs2 k q"
      "\<forall>j. q \<le> j \<and> j < k \<longrightarrow> priority (?cs2 ! j) < prio"
      "0 < q \<longrightarrow> \<not> priority (?cs2 ! (q - 1)) < prio" by simp_all
    have "cs' = moveTo cs (Suc k) q" using ih(1,2) 2(3) by (simp add: moveTo_swap)
    moreover have "\<forall>j. q \<le> j \<and> j < Suc k \<longrightarrow> priority (cs ! j) < prio"
    proof (intro allI impI)
      fix j assume j: "q \<le> j \<and> j < Suc k"
      show "priority (cs ! j) < prio"
      proof (cases "j = k")
        case True
        with \<open>priority (cs ! k) < prio\<close> show ?thesis by simp
      next
        case False
        with j have "j < k" by simp
        with ih(3) j have "priority (?cs2 ! j) < prio" by simp
        with \<open>j < k\<close> show ?thesis by simp
      qed
    qed
    moreover have "0 < q \<longrightarrow> \<not> priority (cs ! (q - 1)) < prio"
    proof
      assume "0 < q"
      with ih(4) have "\<not> priority (?cs2 ! (q - 1)) < prio" by simp
      moreover have "q - 1 < k" using ih(1) \<open>0 < q\<close> by simp
      ultimately show "\<not> priority (cs ! (q - 1)) < prio" by simp
    qed
    ultimately show ?thesis using ih(1) by simp
  next
    case False
    with 2(2) have "cs' = cs" "q = Suc k" by simp_all
    moreover have "moveTo cs (Suc k) (Suc k) = cs"
      using 2(3) by (simp add: moveTo_def take_Suc_conv_app_nth[symmetric] Cons_nth_drop_Suc del: take_Suc)
    ultimately show ?thesis using False by auto
  qed
qed


lemma moveTo_update:
  assumes "pos < length cs" "q \<le> pos"
  shows "moveTo (cs[pos := b]) pos q = take q cs @ [b] @ drop q (take pos cs) @ drop (Suc pos) cs"
  using assms by (simp add: moveTo_def)

lemma split_at:
  assumes "pos < length cs" "q \<le> pos"
  shows "cs = take q cs @ drop q (take pos cs) @ [cs ! pos] @ drop (Suc pos) cs"
proof -
  have "cs = take pos cs @ cs ! pos # drop (Suc pos) cs"
    using assms(1) by (rule id_take_nth_drop)
  moreover have "take pos cs = take q cs @ drop q (take pos cs)"
    using assms(2) by (metis append_take_drop_id min.absorb1 take_take)
  ultimately show ?thesis by (metis append.assoc append_Cons append_Nil)
qed

lemma moveTo_sorted:
  assumes s: "sorted_wrt byPriority cs" and p: "pos < length cs" and q: "q \<le> pos"
    and up: "priority (cs ! pos) < priority b"
    and mid: "\<forall>j. q \<le> j \<and> j < pos \<longrightarrow> priority (cs ! j) < priority b"
    and stop: "0 < q \<longrightarrow> \<not> priority (cs ! (q - 1)) < priority b"
  shows "sorted_wrt byPriority (moveTo (cs[pos := b]) pos q)"
proof -
  let ?A = "take q cs" and ?M = "drop q (take pos cs)" and ?T = "drop (Suc pos) cs"
  have cs: "cs = ?A @ ?M @ [cs ! pos] @ ?T" using p q by (rule split_at)
  have "sorted_wrt byPriority (?A @ ?M @ [cs ! pos] @ ?T)" using s cs by simp
  then have parts: "sorted_wrt byPriority ?A" "sorted_wrt byPriority ?M" "sorted_wrt byPriority ?T"
    and AM: "\<forall>a\<in>set ?A. \<forall>m\<in>set ?M. byPriority a m"
    and AT: "\<forall>a\<in>set ?A. \<forall>t\<in>set ?T. byPriority a t"
    and MT: "\<forall>m\<in>set ?M. \<forall>t\<in>set ?T. byPriority m t"
    and xT: "\<forall>t\<in>set ?T. byPriority (cs ! pos) t"
    by (auto simp: sorted_wrt_append)
  have Ab: "\<forall>a\<in>set ?A. byPriority a b"
  proof
    fix a assume "a \<in> set ?A"
    then obtain i where i: "i < q" "a = cs ! i"
      using p q by (auto simp: in_set_conv_nth)
    then have q0: "0 < q" by simp
    have "priority (cs ! (q - 1)) \<le> priority (cs ! i)"
    proof (cases "i = q - 1")
      case True
      then show ?thesis by simp
    next
      case False
      with i have "i < q - 1" by simp
      moreover have "q - 1 < length cs" using p q q0 by simp
      ultimately have "byPriority (cs ! i) (cs ! (q - 1))"
        using s by (simp add: sorted_wrt_iff_nth_less)
      then show ?thesis by (simp add: byPriority_def)
    qed
    moreover have "priority b \<le> priority (cs ! (q - 1))" using stop q0 by simp
    ultimately show "byPriority a b" using i by (simp add: byPriority_def)
  qed
  have bM: "\<forall>m\<in>set ?M. byPriority b m"
  proof
    fix m assume "m \<in> set ?M"
    then obtain j where "j < length ?M" "m = ?M ! j" by (auto simp: in_set_conv_nth)
    then have "q + j < pos" "m = cs ! (q + j)" using p q by simp_all
    with mid show "byPriority b m" by (simp add: byPriority_def less_imp_le)
  qed
  have bT: "\<forall>t\<in>set ?T. byPriority b t"
  proof
    fix t assume "t \<in> set ?T"
    with xT have "priority t \<le> priority (cs ! pos)" by (simp add: byPriority_def)
    with up show "byPriority b t" by (simp add: byPriority_def)
  qed
  show ?thesis
    unfolding moveTo_update[OF p q]
    using parts AM AT MT Ab bM bT by (auto simp: sorted_wrt_append)
qed


lemma word_inc_less: "(x :: 32 word) + 1 \<noteq> 0 \<Longrightarrow> x < x + 1"
  by unat_arith

lemma word_less_inc: "(x :: 32 word) < y \<Longrightarrow> x + 1 \<noteq> 0 \<and> x + 1 \<le> y"
  by unat_arith

lemma word_dec_less: "(y :: 32 word) \<noteq> 0 \<Longrightarrow> y - 1 < y"
  by unat_arith

lemma word_less_dec: "(x :: 32 word) < y \<Longrightarrow> x \<le> y - 1"
  by unat_arith

lemma map_moveTo: "pos < length xs \<Longrightarrow> map f (moveTo xs pos q) = moveTo (map f xs) pos q"
  by (simp add: moveTo_def take_map drop_map)

lemma set_moveTo: "pos < length xs \<Longrightarrow> q \<le> pos \<Longrightarrow> set (moveTo xs pos q) = set xs"
proof -
  assume a: "pos < length xs" "q \<le> pos"
  have "set xs = set (take q xs @ drop q (take pos xs) @ [xs ! pos] @ drop (Suc pos) xs)"
    using split_at[OF a] by simp
  then show ?thesis by (auto simp: moveTo_def)
qed

lemma length_moveTo: "pos < length xs \<Longrightarrow> q \<le> pos \<Longrightarrow> length (moveTo xs pos q) = length xs"
  by (simp add: moveTo_def)

lemma nth_moveTo: "pos < length xs \<Longrightarrow> q \<le> pos \<Longrightarrow> moveTo xs pos q ! q = xs ! pos"
  by (simp add: moveTo_def nth_append)

lemma firstByte_setPriority [simp]: "firstByte (setPriority p c) = firstByte c"
  by (simp add: firstByte_def setPriority_def)

lemma incrementChildPrio_moves:
  assumes pos: "pos < length (children n)" and li: "pos < length (indices n)"
    and srt: "sorted_wrt byPriority (children n)"
    and nowrap: "priority (children n ! pos) + 1 \<noteq> 0"
  shows "\<exists>q. q \<le> pos
           \<and> incrementChildPrio n pos =
               Inr (Node (path n) (moveTo (indices n) pos q) (wildChild n) (nType n) (priority n)
                      (moveTo ((children n)
                         [pos := setPriority (priority (children n ! pos) + 1) (children n ! pos)]) pos q)
                      (handlers n) (params n), q)
           \<and> sorted_wrt byPriority
                 (moveTo ((children n)
                    [pos := setPriority (priority (children n ! pos) + 1) (children n ! pos)]) pos q)"
proof -
  let ?b = "setPriority (priority (children n ! pos) + 1) (children n ! pos)"
  let ?cs1 = "(children n)[pos := ?b]"
  have pb: "priority ?b = priority (children n ! pos) + 1" by (simp add: setPriority_def)
  have p1: "pos < length ?cs1" using pos by simp
  obtain cs' q where b: "bubble ?cs1 pos (priority (?cs1 ! pos)) = (cs', q)"
    by (cases "bubble ?cs1 pos (priority (?cs1 ! pos))") auto
  from bubble_spec[OF b p1] have q: "q \<le> pos" and cs': "cs' = moveTo ?cs1 pos q"
    and mid1: "\<forall>j. q \<le> j \<and> j < pos \<longrightarrow> priority (?cs1 ! j) < priority (?cs1 ! pos)"
    and stop1: "0 < q \<longrightarrow> \<not> priority (?cs1 ! (q - 1)) < priority (?cs1 ! pos)"
    by simp_all
  have mid: "\<forall>j. q \<le> j \<and> j < pos \<longrightarrow> priority (children n ! j) < priority ?b"
    using mid1 pos by (auto simp: nth_list_update)
  have stop: "0 < q \<longrightarrow> \<not> priority (children n ! (q - 1)) < priority ?b"
  proof
    assume "0 < q"
    with q have "q - 1 \<noteq> pos" by simp
    with stop1 \<open>0 < q\<close> pos show "\<not> priority (children n ! (q - 1)) < priority ?b"
      by (simp add: nth_list_update)
  qed
  have up: "priority (children n ! pos) < priority ?b"
    using nowrap pb by (simp add: word_inc_less)
  have sorted': "sorted_wrt byPriority cs'"
    unfolding cs' using srt pos q up mid stop by (rule moveTo_sorted)
  have same: "q = pos \<Longrightarrow> moveTo (indices n) pos q = indices n"
    using li split_at[of pos "indices n" pos] by (simp add: moveTo_def)
  show ?thesis
  proof (cases "q = pos")
    case True
    have "incrementChildPrio n pos = Inr (setChildren cs' n, q)"
      using pos b True by (simp add: incrementChildPrio_def Let_def)
    with True q sorted' same cs' show ?thesis
      by (cases n) (auto simp: setChildren_def)
  next
    case False
    have "incrementChildPrio n pos =
            Inr (Node (path n) (moveTo (indices n) pos q) (wildChild n) (nType n) (priority n) cs'
                   (handlers n) (params n), q)"
      using pos b False li by (simp add: incrementChildPrio_def Let_def moveTo_def)
    with q sorted' cs' show ?thesis by auto
  qed
qed

lemma treeInv_iff:
  "treeInv n =
     (\<not> wildChild n \<and> distinct (indices n)
      \<and> map firstByte (children n) = indices n \<and> sorted_wrt byPriority (children n)
      \<and> (\<forall>c \<in> set (children n). path c \<noteq> [] \<and> priority c \<le> priority n \<and> treeInv c))"
  by (cases n) simp

lemma sorted_update_same_priority:
  assumes "sorted_wrt byPriority cs" "k < length cs" "priority x = priority (cs ! k)"
  shows "sorted_wrt byPriority (cs[k := x])"
proof -
  have eq: "map priority (cs[k := x]) = map priority cs"
    using assms(2,3) by (simp add: map_update) (metis list_update_id nth_map)
  have bp: "(byPriority :: 'a node \<Rightarrow> 'a node \<Rightarrow> bool) = (\<lambda>a b. priority b \<le> priority a)"
    by (intro ext) (simp add: byPriority_def)
  have "sorted_wrt byPriority ys = sorted_wrt (\<lambda>a b. b \<le> a) (map priority ys)" for ys :: "'a node list"
    by (simp add: sorted_wrt_map bp)
  with eq assms(1) show ?thesis by simp
qed

lemma word_one_le: "(x :: 32 word) \<noteq> 0 \<Longrightarrow> 1 \<le> x"
  by unat_arith

lemma insertChild_static:
  "isStatic pth \<Longrightarrow> insertChild n pth m h =
     Inr (Node pth (indices n) (wildChild n) (nType n) (priority n) (children n)
            ((handlers n)(m := h)) (params n))"
  using findWildcard_static[of pth] by (simp add: insertChild.simps)

lemma findIndex_None: "findIndex c s = None \<Longrightarrow> c \<notin> set s"
  by (induction s) (auto split: if_splits)

lemma findIndex_distinct: "distinct s \<Longrightarrow> q < length s \<Longrightarrow> findIndex (s ! q) s = Some q"
proof (induction s arbitrary: q)
  case Nil
  then show ?case by simp
next
  case (Cons a s)
  show ?case
  proof (cases q)
    case 0
    then show ?thesis by simp
  next
    case (Suc q')
    with Cons.prems have "s ! q' \<in> set s" "a \<notin> set s" by simp_all
    then have "s ! q' \<noteq> a" by auto
    with Cons Suc show ?thesis by simp
  qed
qed

lemma distinct_moveTo:
  assumes "distinct xs" "pos < length xs" "q \<le> pos"
  shows "distinct (moveTo xs pos q)"
proof -
  have "distinct (take q xs @ drop q (take pos xs) @ [xs ! pos] @ drop (Suc pos) xs)"
    using assms(1) split_at[OF assms(2,3)] by simp
  then show ?thesis by (auto simp: moveTo_def)
qed

lemma distinct_insert_at:
  assumes "distinct xs" "c \<notin> set xs"
  shows "distinct (take q xs @ [c] @ drop q xs)"
proof -
  have "set (take q xs) \<inter> set (drop q xs) = {}"
    using assms(1) by (rule set_take_disj_set_drop_if_distinct) simp
  then show ?thesis using assms by (auto dest: in_set_takeD in_set_dropD)
qed

lemma getValueFrom_here:
  "path n = pth \<Longrightarrow>
   getValueFrom n pth m ps =
     Inr (case handlers n m of Some h \<Rightarrow> Some (h, ps) | None \<Rightarrow> None)"
  by (subst getValueFrom.simps) (simp split: option.splits)

lemma getValueFrom_descend:
  assumes "path n = take i pth" "i < length pth" "\<not> wildChild n"
    and "findIndex (hd (drop i pth)) (indices n) = Some q" "q < length (children n)"
  shows "getValueFrom n pth m ps = getValueFrom (children n ! q) (drop i pth) m ps"
  using assms by (subst getValueFrom.simps) (simp add: min_def)

lemma append_child:
  assumes inv: "treeInv n1" and ne: "pth1 \<noteq> []" and st: "isStatic pth1" and p0: "priority n1 \<noteq> 0"
    and fresh: "hd pth1 \<notin> set (indices n1)"
  shows "\<exists>n3 q. incrementChildPrio
                  (Node (path n1) (indices n1 @ [hd pth1]) (wildChild n1) (nType n1) (priority n1)
                     (children n1 @ [emptyNode]) (handlers n1) (params n1))
                  (length (indices n1)) = Inr (n3, q)
           \<and> (\<exists>ch. insertChild (children n3 ! q) pth1 m h = Inr ch
                 \<and> treeInv (setChildren ((children n3)[q := ch]) n3)
                 \<and> priority (setChildren ((children n3)[q := ch]) n3) = priority n1
                 \<and> path (setChildren ((children n3)[q := ch]) n3) = path n1
                 \<and> findIndex (hd pth1) (indices n3) = Some q
                 \<and> q < length (children n3)
                 \<and> ch = Node pth1 [] False static 1 [] (nilHandlers(m := h)) [])"
proof -
  let ?cs = "children n1" and ?ix = "indices n1"
  let ?L = "length ?ix"
  let ?n2 = "Node (path n1) (?ix @ [hd pth1]) (wildChild n1) (nType n1) (priority n1)
               (?cs @ [emptyNode]) (handlers n1) (params n1)"
  let ?e1 = "Node [] [] False static 1 [] nilHandlers [] :: 'a node"
  let ?ch = "Node pth1 [] False static 1 [] (nilHandlers(m := h)) [] :: 'a node"
  from inv have ix: "map firstByte ?cs = ?ix" and srt: "sorted_wrt byPriority ?cs"
    and kids: "\<forall>c \<in> set ?cs. path c \<noteq> [] \<and> priority c \<le> priority n1 \<and> treeInv c"
    and nw: "\<not> wildChild n1" and dix: "distinct ?ix"
    by (simp_all add: treeInv_iff[of n1])
  have len: "length ?cs = ?L" using ix by (metis length_map)
  have e1: "setPriority (priority (children ?n2 ! ?L) + 1) (children ?n2 ! ?L) = ?e1"
    using len by (simp add: setPriority_def nth_append)
  have "\<exists>q. q \<le> ?L
           \<and> incrementChildPrio ?n2 ?L =
               Inr (Node (path ?n2) (moveTo (indices ?n2) ?L q) (wildChild ?n2) (nType ?n2) (priority ?n2)
                      (moveTo ((children ?n2)
                         [?L := setPriority (priority (children ?n2 ! ?L) + 1) (children ?n2 ! ?L)]) ?L q)
                      (handlers ?n2) (params ?n2), q)
           \<and> sorted_wrt byPriority
                 (moveTo ((children ?n2)
                    [?L := setPriority (priority (children ?n2 ! ?L) + 1) (children ?n2 ! ?L)]) ?L q)"
  proof (rule incrementChildPrio_moves)
    show "?L < length (children ?n2)" using len by simp
    show "?L < length (indices ?n2)" by simp
    show "sorted_wrt byPriority (children ?n2)"
      using srt by (simp add: sorted_wrt_append byPriority_def)
    show "priority (children ?n2 ! ?L) + 1 \<noteq> 0" using len by (simp add: nth_append)
  qed
  then obtain q where q: "q \<le> ?L"
    and inc: "incrementChildPrio ?n2 ?L =
               Inr (Node (path n1) (moveTo (?ix @ [hd pth1]) ?L q) (wildChild n1) (nType n1) (priority n1)
                      (moveTo ((?cs @ [emptyNode])[?L := ?e1]) ?L q) (handlers n1) (params n1), q)"
    and srt3: "sorted_wrt byPriority (moveTo ((?cs @ [emptyNode])[?L := ?e1]) ?L q)"
    unfolding e1 by auto
  have cs3: "moveTo ((?cs @ [emptyNode])[?L := ?e1]) ?L q = take q ?cs @ [?e1] @ drop q ?cs"
    using q len by (simp add: moveTo_def)
  have ix3: "moveTo (?ix @ [hd pth1]) ?L q = take q ?ix @ [hd pth1] @ drop q ?ix"
    using q by (simp add: moveTo_def)
  let ?n3 = "Node (path n1) (take q ?ix @ [hd pth1] @ drop q ?ix) (wildChild n1) (nType n1) (priority n1)
               (take q ?cs @ [?e1] @ drop q ?cs) (handlers n1) (params n1)"
  have inc': "incrementChildPrio ?n2 ?L = Inr (?n3, q)" using inc cs3 ix3 by simp
  have nthq: "children ?n3 ! q = ?e1" using q len by (simp add: nth_append)
  have ins: "insertChild (children ?n3 ! q) pth1 m h = Inr ?ch"
    unfolding nthq using st by (simp add: insertChild_static)
  have upd: "(children ?n3)[q := ?ch] = take q ?cs @ [?ch] @ drop q ?cs"
    using q len by (simp add: list_update_append)
  have srt4: "sorted_wrt byPriority (take q ?cs @ [?ch] @ drop q ?cs)"
  proof -
    have "sorted_wrt byPriority ((take q ?cs @ [?e1] @ drop q ?cs)[q := ?ch])"
      using srt3 cs3 q len by (intro sorted_update_same_priority) (simp_all add: nth_append)
    then show ?thesis using q len by (simp add: list_update_append)
  qed
  have heads: "map firstByte (take q ?cs @ [?ch] @ drop q ?cs) = take q ?ix @ [hd pth1] @ drop q ?ix"
    using ix by (simp add: firstByte_def take_map[symmetric] drop_map[symmetric])
  have all: "\<forall>c \<in> set (take q ?cs @ [?ch] @ drop q ?cs).
               path c \<noteq> [] \<and> priority c \<le> priority n1 \<and> treeInv c"
    using kids ne p0 by (auto dest: in_set_takeD in_set_dropD simp: word_one_le)
  have dix3: "distinct (take q ?ix @ [hd pth1] @ drop q ?ix)"
    using dix fresh by (rule distinct_insert_at)
  have "treeInv (setChildren ((children ?n3)[q := ?ch]) ?n3)"
    unfolding upd using srt4 heads all nw dix3 by (simp add: setChildren_def)
  moreover have "findIndex (hd pth1) (indices ?n3) = Some q"
  proof -
    have "q < length (take q ?ix @ [hd pth1] @ drop q ?ix)" using q by simp
    moreover have "(take q ?ix @ [hd pth1] @ drop q ?ix) ! q = hd pth1"
      using q by (simp add: nth_append)
    ultimately show ?thesis using findIndex_distinct[OF dix3, of q] by simp
  qed
  moreover have "q < length (children ?n3)" using q len by simp
  ultimately show ?thesis using inc' ins by (auto simp: setChildren_def)
qed

lemma lcp_le: "longestCommonPrefix a b \<le> length a \<and> longestCommonPrefix a b \<le> length b"
  by (induction a b rule: longestCommonPrefix.induct) auto
lemma lcp_take: "take (longestCommonPrefix a b) a = take (longestCommonPrefix a b) b"
  by (induction a b rule: longestCommonPrefix.induct) auto
lemma lcp_pos: "a \<noteq> [] \<Longrightarrow> b \<noteq> [] \<Longrightarrow> hd a = hd b \<Longrightarrow> 0 < longestCommonPrefix a b"
  by (cases a; cases b) auto

lemma splitEdge_inv:
  assumes inv: "treeInv n" and strict: "\<forall>c \<in> set (children n). priority c < priority n"
    and p0: "priority n \<noteq> 0" and i: "i < length (path n)"
  shows "treeInv (splitEdge n i pth)
         \<and> (\<forall>c \<in> set (children (splitEdge n i pth)). priority c < priority n)
         \<and> priority (splitEdge n i pth) = priority n
         \<and> path (splitEdge n i pth) = take i pth
         \<and> indices (splitEdge n i pth) = [path n ! i]"
proof -
  let ?child = "Node (drop i (path n)) (indices n) (wildChild n) static (priority n - 1)
                  (children n) (handlers n) (params n)"
  from inv have ix: "map firstByte (children n) = indices n" and srt: "sorted_wrt byPriority (children n)"
    and kids: "\<forall>c \<in> set (children n). path c \<noteq> [] \<and> priority c \<le> priority n \<and> treeInv c"
    and nw: "\<not> wildChild n" and dix: "distinct (indices n)"
    by (simp_all add: treeInv_iff[of n])
  have "treeInv ?child"
    using ix srt kids strict nw dix by (auto simp: word_less_dec)
  moreover have "firstByte ?child = path n ! i"
    using i by (simp add: firstByte_def hd_drop_conv_nth)
  moreover have "priority n - 1 < priority n" using p0 by (rule word_dec_less)
  ultimately show ?thesis
    using i by (simp add: splitEdge_def less_imp_le)
qed

lemma treeInv_setPriority:
  "treeInv c \<Longrightarrow> priority c \<le> p \<Longrightarrow> treeInv (setPriority p c)"
  by (cases c) (auto simp: setPriority_def)

lemma isStatic_drop: "isStatic s \<Longrightarrow> isStatic (drop i s)"
  by (auto simp: isStatic_def dest: in_set_dropD)

lemma isStatic_hd: "isStatic s \<Longrightarrow> s \<noteq> [] \<Longrightarrow> hd s \<noteq> CHR '':'' \<and> hd s \<noteq> CHR ''*''"
  by (cases s) (auto simp: isStatic_def)

lemma walk_static:
  "treeInv n \<Longrightarrow> \<forall>c \<in> set (children n). priority c < priority n \<Longrightarrow> priority n \<noteq> 0
   \<Longrightarrow> isStatic pth \<Longrightarrow>
   \<exists>n'. walk n pth m h = Inr n' \<and> treeInv n' \<and> priority n' = priority n
        \<and> path n' = take (longestCommonPrefix pth (path n)) pth
        \<and> (\<forall>ps. getValueFrom n' pth m ps =
                   Inr (case h of Some h' \<Rightarrow> Some (h', ps) | None \<Rightarrow> None))"
proof (induction n pth m h rule: walk.induct)
  case (1 n pth m h)
  let ?i = "longestCommonPrefix pth (path n)"
  let ?n1 = "if ?i < length (path n) then splitEdge n ?i pth else n"
  let ?pth1 = "drop ?i pth"
  let ?c = "hd ?pth1"
  let ?found = "\<lambda>ps. Inr (case h of Some h' \<Rightarrow> Some (h', ps) | None \<Rightarrow> None)
                  :: error + ('a \<times> (string \<rightharpoonup> string)) option"
  note inv = "1.prems"(1) and strict = "1.prems"(2) and p0 = "1.prems"(3) and st = "1.prems"(4)
  have n1: "treeInv ?n1" "\<forall>c \<in> set (children ?n1). priority c < priority n"
    "priority ?n1 = priority n" "path ?n1 = take ?i pth"
  proof -
    show "treeInv ?n1" using splitEdge_inv[OF inv strict p0] inv by simp
    show "\<forall>c \<in> set (children ?n1). priority c < priority n"
      using splitEdge_inv[OF inv strict p0] strict by simp
    show "priority ?n1 = priority n" using splitEdge_inv[OF inv strict p0] by simp
    show "path ?n1 = take ?i pth"
    proof (cases "?i < length (path n)")
      case True
      then show ?thesis using splitEdge_inv[OF inv strict p0] by simp
    next
      case False
      then have "?i = length (path n)" using lcp_le[of pth "path n"] by simp
      then have "take ?i (path n) = path n" by simp
      with lcp_take[of pth "path n"] False show ?thesis by simp
    qed
  qed
  show ?case
  proof (cases "?i < length pth")
    case False
    let ?n' = "Node (path ?n1) (indices ?n1) (wildChild ?n1) (nType ?n1) (priority ?n1)
                 (children ?n1) ((handlers ?n1)(m := h)) (params ?n1)"
    have "walk n pth m h = Inr ?n'"
      using False by (subst walk.simps) (simp add: Let_def)
    moreover have "treeInv ?n'"
      using n1(1) by (simp add: treeInv_iff[of ?n1])
    moreover have "path ?n' = pth" using n1(4) False by simp
    then have "\<forall>ps. getValueFrom ?n' pth m ps = ?found ps"
      by (simp add: getValueFrom_here)
    ultimately show ?thesis using n1(3,4) by simp
  next
    case True
    then have pth1: "?pth1 \<noteq> []" by simp
    have st1: "isStatic ?pth1" using st by (rule isStatic_drop)
    have cst: "?c \<noteq> CHR '':'' \<and> ?c \<noteq> CHR ''*''" using st1 pth1 by (rule isStatic_hd)
    have nw1: "\<not> wildChild ?n1" using n1(1) by (simp add: treeInv_iff[of ?n1])
    show ?thesis
    proof (cases "findIndex ?c (indices ?n1)")
      case None
      then have fresh: "?c \<notin> set (indices ?n1)" by (rule findIndex_None)
      have p1: "priority ?n1 \<noteq> 0" using n1(3) p0 by simp
      from append_child[OF n1(1) pth1 st1 p1 fresh, of m h]
      obtain n3 q ch where
        inc: "incrementChildPrio
                (Node (path ?n1) (indices ?n1 @ [?c]) (wildChild ?n1) (nType ?n1) (priority ?n1)
                   (children ?n1 @ [emptyNode]) (handlers ?n1) (params ?n1))
                (length (indices ?n1)) = Inr (n3, q)"
        and ins: "insertChild (children n3 ! q) ?pth1 m h = Inr ch"
        and res: "treeInv (setChildren ((children n3)[q := ch]) n3)"
          "priority (setChildren ((children n3)[q := ch]) n3) = priority ?n1"
          "path (setChildren ((children n3)[q := ch]) n3) = path ?n1"
        and fi: "findIndex ?c (indices n3) = Some q"
        and ql: "q < length (children n3)"
        and ch: "ch = Node ?pth1 [] False static 1 [] (nilHandlers(m := h)) []"
        by blast
      let ?n' = "setChildren ((children n3)[q := ch]) n3"
      have len: "length (children ?n1) = length (indices ?n1)"
        using n1(1) by (metis length_map treeInv_iff)
      have w: "walk n pth m h = Inr ?n'"
        using True None cst inc ins len by (subst walk.simps) (simp add: Let_def)
      have nw': "\<not> wildChild ?n'" using res(1) by (simp add: treeInv_iff[of ?n'])
      have look: "getValueFrom ?n' pth m ps = ?found ps" for ps
      proof -
        have "getValueFrom ?n' pth m ps = getValueFrom (children ?n' ! q) ?pth1 m ps"
        proof (rule getValueFrom_descend)
          show "path ?n' = take ?i pth" using res(3) n1(4) by simp
          show "?i < length pth" by (rule True)
          show "\<not> wildChild ?n'" by (rule nw')
          show "findIndex ?c (indices ?n') = Some q" using fi by (simp add: setChildren_def)
          show "q < length (children ?n')" using ql by (simp add: setChildren_def)
        qed
        also have "children ?n' ! q = ch" using ql by (simp add: setChildren_def)
        also have "getValueFrom ch ?pth1 m ps = ?found ps"
          unfolding ch by (subst getValueFrom_here) simp_all
        finally show ?thesis .
      qed
      from w res n1(3,4) look show ?thesis by simp
    next
      case (Some k)
      have nosplit: "\<not> ?i < length (path n)"
      proof
        assume s: "?i < length (path n)"
        then have "indices ?n1 = [path n ! ?i]" by (simp add: splitEdge_def)
        with Some findIndex_Some[of ?c "indices ?n1" k] have "?c = path n ! ?i" by auto
        moreover have "?c = pth ! ?i" using True by (simp add: hd_drop_conv_nth)
        ultimately show False using lcp_mismatch[of pth "path n"] True s by simp
      qed
      then have n1n: "?n1 = n" by simp
      from inv have ix: "map firstByte (children n) = indices n"
        and srt: "sorted_wrt byPriority (children n)"
        and kids: "\<forall>c \<in> set (children n). path c \<noteq> [] \<and> priority c \<le> priority n \<and> treeInv c"
        and nw: "\<not> wildChild n" and dix: "distinct (indices n)"
        by (simp_all add: treeInv_iff[of n])
      have len: "length (children n) = length (indices n)" using ix by (metis length_map)
      from Some n1n findIndex_Some[of ?c "indices n" k]
      have k: "k < length (indices n)" "indices n ! k = ?c" by auto
      then have kc: "k < length (children n)" using len by simp
      let ?old = "children n ! k"
      let ?b = "setPriority (priority ?old + 1) ?old"
      let ?cs1 = "(children n)[k := ?b]"
      have oldin: "?old \<in> set (children n)" using kc by simp
      have lt: "priority ?old < priority n" using strict oldin by simp
      have nowrap: "priority ?old + 1 \<noteq> 0" and ble: "priority ?old + 1 \<le> priority n"
        using word_less_inc[OF lt] by simp_all
      from incrementChildPrio_moves[OF kc k(1) srt nowrap]
      obtain q where q: "q \<le> k"
        and inc: "incrementChildPrio n k =
                    Inr (Node (path n) (moveTo (indices n) k q) (wildChild n) (nType n) (priority n)
                           (moveTo ?cs1 k q) (handlers n) (params n), q)"
        and srt2: "sorted_wrt byPriority (moveTo ?cs1 k q)"
        by auto
      let ?n2 = "Node (path n) (moveTo (indices n) k q) (wildChild n) (nType n) (priority n)
                   (moveTo ?cs1 k q) (handlers n) (params n)"
      have k1: "k < length ?cs1" using kc by simp
      have nthq: "children ?n2 ! q = ?b" using k1 q kc by (simp add: nth_moveTo)
      have qlen: "q < length (moveTo ?cs1 k q)" using k1 q by (simp add: length_moveTo)
      have pb: "priority ?b = priority ?old + 1" by (simp add: setPriority_def)
      have pathb: "path ?b = path ?old" by (simp add: setPriority_def)
      have childrenb: "children ?b = children ?old" by (simp add: setPriority_def)
      have oldle: "priority ?old \<le> priority ?old + 1"
        using word_inc_less[OF nowrap] by simp
      have invb: "treeInv ?b" using kids oldin oldle by (simp add: treeInv_setPriority)
      have strictb: "\<forall>g \<in> set (children ?b). priority g < priority ?b"
      proof
        fix g assume "g \<in> set (children ?b)"
        then have "g \<in> set (children ?old)" by (simp add: childrenb)
        moreover have "treeInv ?old" using kids oldin by simp
        ultimately have "priority g \<le> priority ?old" by (simp add: treeInv_iff[of ?old])
        with word_inc_less[OF nowrap] show "priority g < priority ?b" by (simp add: pb)
      qed
      have b0: "priority ?b \<noteq> 0" using nowrap by (simp add: pb)
      have inc1: "incrementChildPrio ?n1 k = Inr (?n2, q)" using inc n1n by simp
      have "\<exists>ch. walk (children ?n2 ! q) ?pth1 m h = Inr ch \<and> treeInv ch
              \<and> priority ch = priority (children ?n2 ! q)
              \<and> path ch = take (longestCommonPrefix ?pth1 (path (children ?n2 ! q))) ?pth1
              \<and> (\<forall>ps. getValueFrom ch ?pth1 m ps = ?found ps)"
      proof (rule "1.IH"[OF refl refl True refl refl Some inc1 refl])
        show "treeInv (children ?n2 ! q)" unfolding nthq by (rule invb)
        show "\<forall>c \<in> set (children (children ?n2 ! q)). priority c < priority (children ?n2 ! q)"
          unfolding nthq by (rule strictb)
        show "priority (children ?n2 ! q) \<noteq> 0" unfolding nthq by (rule b0)
        show "isStatic ?pth1" by (rule st1)
      qed
      then obtain ch where w: "walk (children ?n2 ! q) ?pth1 m h = Inr ch" and invch: "treeInv ch"
        and pch: "priority ch = priority ?b"
        and pathch: "path ch = take (longestCommonPrefix ?pth1 (path ?old)) ?pth1"
        and lookch: "\<forall>ps. getValueFrom ch ?pth1 m ps = ?found ps"
        unfolding nthq pathb by auto
      have fbold: "firstByte ?old = ?c"
        using ix kc k(2) by (metis nth_map)
      have oldne: "path ?old \<noteq> []" using kids oldin by simp
      have pos: "0 < longestCommonPrefix ?pth1 (path ?old)"
        using pth1 oldne fbold by (intro lcp_pos) (simp_all add: firstByte_def)
      have chne: "path ch \<noteq> []" using pos pth1 by (simp add: pathch)
      have fbch: "firstByte ch = ?c" using pos pth1 by (simp add: firstByte_def pathch hd_take)
      have heads1: "map firstByte ?cs1 = indices n"
        using ix kc by (simp add: map_update) (metis list_update_id nth_map)
      have heads2: "map firstByte (moveTo ?cs1 k q) = moveTo (indices n) k q"
        using k1 heads1 by (simp add: map_moveTo)
      have heads3: "map firstByte ((moveTo ?cs1 k q)[q := ch]) = moveTo (indices n) k q"
      proof -
        have "firstByte ch = map firstByte (moveTo ?cs1 k q) ! q"
          using qlen nthq fbch fbold by simp
        then show ?thesis
          using heads2 by (simp add: map_update)
      qed
      have srt3: "sorted_wrt byPriority ((moveTo ?cs1 k q)[q := ch])"
        using srt2 qlen nthq pch by (intro sorted_update_same_priority) simp_all
      have all3: "\<forall>x \<in> set ((moveTo ?cs1 k q)[q := ch]).
                    path x \<noteq> [] \<and> priority x \<le> priority n \<and> treeInv x"
      proof
        fix x assume "x \<in> set ((moveTo ?cs1 k q)[q := ch])"
        then have "x = ch \<or> x \<in> set (moveTo ?cs1 k q)"
          using set_update_subset_insert[of "moveTo ?cs1 k q" q ch] by auto
        then have "x = ch \<or> x \<in> set ?cs1" using k1 q by (simp add: set_moveTo)
        then have "x = ch \<or> x = ?b \<or> x \<in> set (children n)"
          using set_update_subset_insert[of "children n" k ?b] by auto
        then show "path x \<noteq> [] \<and> priority x \<le> priority n \<and> treeInv x"
          using chne pch pb ble invch invb pathb oldne kids by auto
      qed
      have dix2: "distinct (moveTo (indices n) k q)"
        using dix k(1) q by (rule distinct_moveTo)
      let ?n' = "setChildren ((children ?n2)[q := ch]) ?n2"
      have wn: "walk n pth m h = Inr ?n'"
        using True Some inc1 w by (subst walk.simps) (simp add: Let_def)
      have invn': "treeInv ?n'"
        using heads3 srt3 all3 nw dix2 by (simp add: setChildren_def)
      have look: "getValueFrom ?n' pth m ps = ?found ps" for ps
      proof -
        have "getValueFrom ?n' pth m ps = getValueFrom (children ?n' ! q) ?pth1 m ps"
        proof (rule getValueFrom_descend)
          show "path ?n' = take ?i pth" using n1(4) n1n by (simp add: setChildren_def)
          show "?i < length pth" by (rule True)
          show "\<not> wildChild ?n'" using nw by (simp add: setChildren_def)
          have "moveTo (indices n) k q ! q = ?c" using k q by (simp add: nth_moveTo)
          moreover have "q < length (moveTo (indices n) k q)" using k(1) q by (simp add: length_moveTo)
          ultimately show "findIndex ?c (indices ?n') = Some q"
            using findIndex_distinct[OF dix2, of q] by (simp add: setChildren_def)
          show "q < length (children ?n')" using qlen by (simp add: setChildren_def)
        qed
        also have "children ?n' ! q = ch" using qlen by (simp add: setChildren_def)
        finally show ?thesis using lookch by simp
      qed
      from wn invn' look n1(4) n1n show ?thesis by (simp add: setChildren_def)
    qed
  qed
qed

lemma treeInv_wellIndexed: "treeInv n \<Longrightarrow> wellIndexed n"
proof (induction n)
  case (Node p ix w t pr cs hs ps)
  have bp: "(byPriority :: 'a node \<Rightarrow> 'a node \<Rightarrow> bool) = (\<lambda>a b. priority b \<le> priority a)"
    by (intro ext) (simp add: byPriority_def)
  from Node.prems have ix: "map firstByte cs = ix" and srt: "sorted_wrt byPriority cs"
    and kids: "\<forall>c \<in> set cs. path c \<noteq> [] \<and> treeInv c" by auto
  have "length ix = length cs" using ix by auto
  moreover have "\<forall>i < length cs. path (cs ! i) \<noteq> [] \<and> path (cs ! i) ! 0 = ix ! i"
  proof (intro allI impI)
    fix i assume i: "i < length cs"
    then have ne: "path (cs ! i) \<noteq> []" using kids by simp
    have "ix ! i = firstByte (cs ! i)" using ix i by auto
    with ne show "path (cs ! i) \<noteq> [] \<and> path (cs ! i) ! 0 = ix ! i"
      by (simp add: firstByte_def hd_conv_nth)
  qed
  moreover have "\<forall>c \<in> set cs. wellIndexed c" using Node.IH kids by simp
  ultimately show ?case using srt by (simp add: bp)
qed

lemma word_succ_unat:
  assumes "unat (x :: 32 word) < 4294967295"
  shows "x + 1 \<noteq> 0 \<and> unat (x + 1) = Suc (unat x)"
proof -
  have "unat (- 1 :: 32 word) = 4294967295"
    by (simp add: unsigned_minus_1_eq_mask mask_eq_exp_minus_1)
  with assms have "x \<noteq> - 1" by auto
  then have nz: "1 + x \<noteq> 0" by (metis add.commute eq_neg_iff_add_eq_0)
  from unatSuc[OF nz] nz show ?thesis by (simp add: add.commute)
qed

lemma addRoute_static:
  assumes inv: "treeInv n" and nowrap: "priority n + 1 \<noteq> 0" and st: "isStatic pth"
  shows "\<exists>n'. addRoute n pth m h = Inr n' \<and> treeInv n' \<and> priority n' = priority n + 1
           \<and> getValue n' pth m = Inr (case h of Some h' \<Rightarrow> Some (h', Map.empty) | None \<Rightarrow> None)"
proof -
  let ?n0 = "setPriority (priority n + 1) n"
  have le: "priority n \<le> priority n + 1" using word_inc_less[OF nowrap] by simp
  have inv0: "treeInv ?n0" using inv le by (rule treeInv_setPriority)
  show ?thesis
  proof (cases "length (path ?n0) = 0 \<and> length (children ?n0) = 0")
    case True
    then have e: "children n = []" by (simp add: setPriority_def)
    then have "indices n = []" "\<not> wildChild n" using inv by (simp_all add: treeInv_iff[of n])
    with True e st show ?thesis
      by (simp add: addRoute_def Let_def insertChild_static setPriority_def getValue_def
            getValueFrom_here)
  next
    case False
    have strict: "\<forall>c \<in> set (children ?n0). priority c < priority ?n0"
    proof
      fix c assume "c \<in> set (children ?n0)"
      then have "priority c \<le> priority n" using inv by (simp add: treeInv_iff[of n] setPriority_def)
      with word_inc_less[OF nowrap] show "priority c < priority ?n0" by (simp add: setPriority_def)
    qed
    have p0: "priority ?n0 \<noteq> 0" using nowrap by (simp add: setPriority_def)
    from walk_static[OF inv0 strict p0 st, of m h] obtain n'
      where "walk ?n0 pth m h = Inr n'" "treeInv n'" "priority n' = priority ?n0"
        "\<forall>ps. getValueFrom n' pth m ps = Inr (case h of Some h' \<Rightarrow> Some (h', ps) | None \<Rightarrow> None)"
      by auto
    with False show ?thesis by (auto simp: addRoute_def Let_def setPriority_def getValue_def)
  qed
qed

lemma set_setTree: "set (setTree m t ts) \<subseteq> insert (m, t) (set ts)"
  by (induction ts) (auto split: if_splits)

lemma Router_addRoute_static:
  assumes tb: "treesBounded r k" and k: "k < 4294967295" and st: "isStatic pth"
    and reg: "Router_addRoute r m pth h = Inr r'"
  shows "treesBounded r' (Suc k)"
proof -
  let ?rt = "case map_of (trees r) m of None \<Rightarrow> emptyNode | Some t \<Rightarrow> t"
  have rt: "treeInv ?rt \<and> unat (priority ?rt) \<le> k"
  proof (cases "map_of (trees r) m")
    case None
    then show ?thesis by simp
  next
    case (Some t)
    then have "(m, t) \<in> set (trees r)" by (rule map_of_SomeD)
    with tb Some show ?thesis by (auto simp: treesBounded_def)
  qed
  then have nowrap: "priority ?rt + 1 \<noteq> 0" and un: "unat (priority ?rt + 1) = Suc (unat (priority ?rt))"
    using word_succ_unat[of "priority ?rt"] k by simp_all
  from addRoute_static[OF _ nowrap st, of m h] rt obtain rt'
    where a: "addRoute ?rt pth m h = Inr rt'" and inv': "treeInv rt'"
      and p': "priority rt' = priority ?rt + 1" by auto
  from reg a have r': "r' = r\<lparr>trees := setTree m rt' (trees r)\<rparr>"
    by (auto simp: Router_addRoute_def Let_def split: if_splits)
  have new: "unat (priority rt') \<le> Suc k" using p' un rt by simp
  show ?thesis
    unfolding treesBounded_def
  proof (intro ballI, clarify)
    fix m' t assume "(m', t) \<in> set (trees r')"
    then have "(m', t) = (m, rt') \<or> (m', t) \<in> set (trees r)"
      using set_setTree[of m rt' "trees r"] r' by auto
    then show "treeInv t \<and> unat (priority t) \<le> Suc k"
      using inv' new tb by (auto simp: treesBounded_def)
  qed
qed

lemma register_static:
  "treesBounded r k \<Longrightarrow> k + length regs < 4294967296 \<Longrightarrow> \<forall>(m, p, h) \<in> set regs. isStatic p
   \<Longrightarrow> register r regs = Inr r' \<Longrightarrow> treesBounded r' (k + length regs)"
proof (induction regs arbitrary: r k)
  case Nil
  then show ?case by simp
next
  case (Cons a regs)
  obtain m p h where a: "a = (m, p, h)" by (cases a)
  from Cons.prems(4) a obtain r1 where r1: "Router_addRoute r m p h = Inr r1"
    and rest: "register r1 regs = Inr r'"
    by (auto split: sum.splits)
  have "treesBounded r1 (Suc k)"
    using Cons.prems(1) _ _ r1
  proof (rule Router_addRoute_static)
    show "k < 4294967295" using Cons.prems(2) by simp
    show "isStatic p" using Cons.prems(3) a by simp
  qed
  from Cons.IH[OF this _ _ rest] Cons.prems(2,3) show ?case by simp
qed

text \<open>
  Claim C6, as the code has it by design. After every sequence of fewer than \<open>2^32\<close>
  successful registrations of wildcard-free paths on a new router, every node of every
  method tree has as many index bytes as children, each child's path starts with its
  index byte, and the children are in non-increasing order of priority.
\<close>

theorem static_routes_well_indexed:
  assumes "register New regs = Inr r" and "\<forall>(m, p, h) \<in> set regs. isStatic p"
    and "length regs < 2 ^ 32"
  shows "\<forall>(m, t) \<in> set (trees r). wellIndexed t"
proof -
  have "treesBounded New 0" by (simp add: treesBounded_def New_def)
  from register_static[OF this _ assms(2,1)] assms(3)
  have "treesBounded r (length regs)" by simp
  then show ?thesis by (auto simp: treesBounded_def intro: treeInv_wellIndexed)
qed

theorem static_routes_well_indexed_witness:
  "\<not> isl (register New [(''GET'', ''/abc'', Some (Script [])), (''GET'', ''/abd'', Some (Script [])),
                        (''GET'', ''/x'', Some (Script [])), (''GET'', ''/x/y'', Some (Script [])),
                        (''GET'', ''/x/z'', Some (Script [])), (''GET'', ''/x/z'', Some (Script []))])
   \<and> wellIndexed
       (the (map_of (trees (projr
          (register New [(''GET'', ''/abc'', Some (Script [])), (''GET'', ''/abd'', Some (Script [])),
                         (''GET'', ''/x'', Some (Script [])), (''GET'', ''/x/y'', Some (Script [])),
                         (''GET'', ''/x/z'', Some (Script [])), (''GET'', ''/x/z'', Some (Script []))])))
          ''GET''))"
proof -
  let ?regs = "[(''GET'', ''/abc'', Some (Script [])), (''GET'', ''/abd'', Some (Script [])),
                (''GET'', ''/x'', Some (Script [])), (''GET'', ''/x/y'', Some (Script [])),
                (''GET'', ''/x/z'', Some (Script [])), (''GET'', ''/x/z'', Some (Script []))]"
  have ok: "\<not> isl (register New ?regs)" by code_simp
  then have reg: "register New ?regs = Inr (projr (register New ?regs))" by simp
  have st: "\<forall>(m, p, h) \<in> set ?regs. isStatic p" by (simp add: isStatic_def)
  have dom: "map_of (trees (projr (register New ?regs))) ''GET'' \<noteq> None" by code_simp
  then obtain t where t: "map_of (trees (projr (register New ?regs))) ''GET'' = Some t" by auto
  then have "(''GET'', t) \<in> set (trees (projr (register New ?regs)))" by (rule map_of_SomeD)
  with static_routes_well_indexed[OF reg st] have "wellIndexed t" by auto
  with ok t show ?thesis by simp
qed

text \<open>
  Claim C6 as stated fails: after the single registration \<open>GET /users/:id\<close> the root
  has one child, the \<open>param\<close> node, and no index byte; wildcard children are found
  through \<open>wildChild\<close>, not through \<open>indices\<close>.
\<close>

theorem wildcard_child_not_indexed_counterexample:
  "\<not> isl (register New [(''GET'', ''/users/:id'', Some (Script []))])
   \<and> \<not> wellIndexed
         (the (map_of (trees (projr (register New [(''GET'', ''/users/:id'', Some (Script []))])))
            ''GET''))"
  by (simp add: eval_simps)

section \<open>Duplicate registrations\<close>






end
